theory Spec2Isabelle
  imports Main
begin

section \<open>Time, errors and outcomes\<close>

text \<open>
  Go's \<^verbatim>\<open>time.Time\<close> and \<^verbatim>\<open>time.Duration\<close> are counted in nanoseconds. No arithmetic of
  the modelled code can leave the range of its machine type (the only sum is
  \<^verbatim>\<open>Now().Add(15 * time.Minute)\<close>), so both are unbounded integers here.
\<close>

type_synonym time = int
type_synonym duration = int

definition Add :: "time \<Rightarrow> duration \<Rightarrow> time" where
  "Add t d = t + d"

definition Before :: "time \<Rightarrow> time \<Rightarrow> bool" where
  "Before t u \<longleftrightarrow> t < u"

definition Second :: duration where
  "Second = 1000000000"

definition Minute :: duration where
  "Minute = 60 * Second"

definition Hour :: duration where
  "Hour = 60 * Minute"

text \<open>An error value is built by \<^verbatim>\<open>errors.New\<close> and may be wrapped by \<^verbatim>\<open>trace.Wrap\<close>.\<close>

datatype error = errors_New string | Wrapped error

text \<open>\<^verbatim>\<open>trace.Wrap(nil)\<close> is \<^verbatim>\<open>nil\<close>; any other error is wrapped.\<close>

fun trace_Wrap :: "error option \<Rightarrow> error option" where
  "trace_Wrap None = None"
| "trace_Wrap (Some e) = Some (Wrapped e)"

datatype panic = NilFunctionCall | CloseOfClosedChannel | NonPositiveInterval

text \<open>
  What a call or a step of a goroutine comes to: it completes with a value, it panics, or it
  cannot proceed in the present state (the communication it waits for is not ready).
\<close>

datatype 'a res = Ok 'a | Panic panic | Blocked

fun bind_res :: "'a res \<Rightarrow> ('a \<Rightarrow> 'b res) \<Rightarrow> 'b res" where
  "bind_res (Ok x) f = f x"
| "bind_res (Panic p) f = Panic p"
| "bind_res Blocked f = Blocked"

text \<open>Closing a channel: the flag says whether the channel is closed. Closing twice panics.\<close>

definition close_chan :: "bool \<Rightarrow> bool res" where
  "close_chan closed = (if closed then Panic CloseOfClosedChannel else Ok True)"

section \<open>The credentials cache (lib/integrations/externalcloudaudit/configurator.go)\<close>

definition TokenLifetime :: duration where
  "TokenLifetime = Hour"

definition refreshBeforeExpirationPeriod :: duration where
  "refreshBeforeExpirationPeriod = 15 * Minute"

definition refreshCheckInterval :: duration where
  "refreshCheckInterval = 30 * Second"

definition retrieveTimeout :: duration where
  "retrieveTimeout = 30 * Second"

text \<open>\<^verbatim>\<open>aws.Credentials\<close> of aws-sdk-go-v2, with its \<^verbatim>\<open>HasKeys\<close> method.\<close>

record Credentials =
  AccessKeyID :: string
  SecretAccessKey :: string
  SessionToken :: string
  Source :: string
  CanExpire :: bool
  Expires :: time

definition zero_Credentials :: Credentials where
  "zero_Credentials =
     \<lparr>AccessKeyID = [], SecretAccessKey = [], SessionToken = [], Source = [],
      CanExpire = False, Expires = 0\<rparr>"

definition HasKeys :: "Credentials \<Rightarrow> bool" where
  "HasKeys v \<longleftrightarrow> length (AccessKeyID v) > 0 \<and> length (SecretAccessKey v) > 0"

record credsOrErr =
  creds :: Credentials
  err :: "error option"

text \<open>
  The token source and the STS exchange are external and effectful: the \<open>k\<close>-th call of
  \<^verbatim>\<open>generateOIDCTokenFn\<close> returns \<open>fn k\<close>, the \<open>k\<close>-th \<^verbatim>\<open>roleProvider.Retrieve\<close> returns
  \<open>sts_reply k roleARN token\<close>, and the \<open>k\<close>-th reading of the clock returns \<open>clock k\<close>.
  The counters record how often each has been used.
\<close>

type_synonym GenerateOIDCTokenFn = "nat \<Rightarrow> string \<times> error option"

record world =
  clock :: "nat \<Rightarrow> time"
  clock_reads :: nat
  token_calls :: nat
  sts_reply :: "nat \<Rightarrow> string \<Rightarrow> string \<Rightarrow> Credentials \<times> error option"
  sts_calls :: nat

definition Now :: "world \<Rightarrow> time \<times> world" where
  "Now w = (clock w (clock_reads w), w\<lparr>clock_reads := Suc (clock_reads w)\<rparr>)"

text \<open>
  The struct. A channel that is only ever closed is the flag "closed"; a \<^verbatim>\<open>sync.OnceFunc\<close> is
  the flag "has run". The logger, which has no effect on the cache, is left out.
\<close>

record credentialsCache =
  roleARN :: string
  generateOIDCTokenFn :: "GenerateOIDCTokenFn option"
  initialized :: bool
  closeInitialized_ran :: bool
  gotFirstCredsOrErr :: bool
  closeGotFirstCredsOrErr_ran :: bool
  credsOrErr :: credsOrErr

definition not_yet_initialized :: error where
  "not_yet_initialized = errors_New ''ExternalCloudAudit: credential cache not yet initialized''"

definition newCredentialsCache :: "string \<Rightarrow> credentialsCache" where
  "newCredentialsCache arn =
     \<lparr>roleARN = arn,
      generateOIDCTokenFn = None,
      initialized = False,
      closeInitialized_ran = False,
      gotFirstCredsOrErr = False,
      closeGotFirstCredsOrErr_ran = False,
      credsOrErr = \<lparr>creds = zero_Credentials, err = Some not_yet_initialized\<rparr>\<rparr>"

definition closeInitialized :: "credentialsCache \<Rightarrow> credentialsCache res" where
  "closeInitialized cc =
     (if closeInitialized_ran cc then Ok cc
      else case close_chan (initialized cc) of
             Ok c \<Rightarrow> Ok (cc\<lparr>initialized := c, closeInitialized_ran := True\<rparr>)
           | Panic p \<Rightarrow> Panic p
           | Blocked \<Rightarrow> Blocked)"

definition closeGotFirstCredsOrErr :: "credentialsCache \<Rightarrow> credentialsCache res" where
  "closeGotFirstCredsOrErr cc =
     (if closeGotFirstCredsOrErr_ran cc then Ok cc
      else case close_chan (gotFirstCredsOrErr cc) of
             Ok c \<Rightarrow> Ok (cc\<lparr>gotFirstCredsOrErr := c, closeGotFirstCredsOrErr_ran := True\<rparr>)
           | Panic p \<Rightarrow> Panic p
           | Blocked \<Rightarrow> Blocked)"

definition setGenerateOIDCTokenFn ::
  "GenerateOIDCTokenFn \<Rightarrow> credentialsCache \<Rightarrow> credentialsCache res" where
  "setGenerateOIDCTokenFn fn cc = closeInitialized (cc\<lparr>generateOIDCTokenFn := Some fn\<rparr>)"

definition Retrieve :: "credentialsCache \<Rightarrow> Credentials \<times> error option" where
  "Retrieve cc = (creds (credsOrErr cc), err (credsOrErr cc))"

definition setCredsOrErr :: "credsOrErr \<Rightarrow> credentialsCache \<Rightarrow> credentialsCache res" where
  "setCredsOrErr coe cc = closeGotFirstCredsOrErr (cc\<lparr>credsOrErr := coe\<rparr>)"

text \<open>
  \<^verbatim>\<open>refresh\<close>: ask for a token, then exchange it. Calling the token function while it is
  still \<^verbatim>\<open>nil\<close> panics.
\<close>

definition refresh ::
  "credentialsCache \<Rightarrow> world \<Rightarrow> ((Credentials \<times> error option) \<times> world) res" where
  "refresh cc w =
     (case generateOIDCTokenFn cc of
        None \<Rightarrow> Panic NilFunctionCall
      | Some fn \<Rightarrow>
          (let (oidcToken, e) = fn (token_calls w);
               w1 = w\<lparr>token_calls := Suc (token_calls w)\<rparr>
           in if e \<noteq> None then Ok ((zero_Credentials, trace_Wrap e), w1)
              else (let (c, e') = sts_reply w1 (sts_calls w1) (roleARN cc) oidcToken;
                        w2 = w1\<lparr>sts_calls := Suc (sts_calls w1)\<rparr>
                    in Ok ((c, trace_Wrap e'), w2))))"

text \<open>
  \<^verbatim>\<open>refreshIfNeeded\<close>. Go's \<^verbatim>\<open>&&\<close> reads the clock only when the operands before it hold.
\<close>

definition fresh_enough :: "Credentials \<times> error option \<Rightarrow> world \<Rightarrow> bool \<times> world" where
  "fresh_enough r w =
     (if snd r = None \<and> HasKeys (fst r)
      then (let (now, w1) = Now w
            in (Before (Add now refreshBeforeExpirationPeriod) (Expires (fst r)), w1))
      else (False, w))"

definition still_valid :: "Credentials \<Rightarrow> world \<Rightarrow> bool \<times> world" where
  "still_valid c w =
     (if HasKeys c
      then (let (now, w1) = Now w in (Before now (Expires c), w1))
      else (False, w))"

definition refreshIfNeeded ::
  "credentialsCache \<Rightarrow> world \<Rightarrow> (credentialsCache \<times> world) res" where
  "refreshIfNeeded cc w =
     (let (credsFromCache, e) = Retrieve cc;
          (skip, w1) = fresh_enough (credsFromCache, e) w
      in if skip then Ok (cc, w1)
         else case refresh cc w1 of
                Panic p \<Rightarrow> Panic p
              | Blocked \<Rightarrow> Blocked
              | Ok ((c, e'), w2) \<Rightarrow>
                  (if e' \<noteq> None
                   then (let (valid, w3) = still_valid credsFromCache w2
                         in if valid then Ok (cc, snd (Now w3))
                            else case setCredsOrErr \<lparr>creds = zero_Credentials, err = trace_Wrap e'\<rparr> cc of
                                   Ok cc' \<Rightarrow> Ok (cc', w3)
                                 | Panic p \<Rightarrow> Panic p
                                 | Blocked \<Rightarrow> Blocked)
                   else case setCredsOrErr \<lparr>creds = c, err = None\<rparr> cc of
                          Ok cc' \<Rightarrow> Ok (cc', w2)
                        | Panic p \<Rightarrow> Panic p
                        | Blocked \<Rightarrow> Blocked))"

definition waitForFirstCredsOrErr :: "bool \<Rightarrow> credentialsCache \<Rightarrow> unit res" where
  "waitForFirstCredsOrErr ctx_Done cc =
     (if ctx_Done \<or> gotFirstCredsOrErr cc then Ok () else Blocked)"


subsection \<open>The background loop \<^verbatim>\<open>run\<close> and its callers, as a transition system\<close>

text \<open>
  Where the goroutine started by \<^verbatim>\<open>newConfigurator\<close> stands: at its first \<^verbatim>\<open>select\<close>
  (waiting for \<^verbatim>\<open>initialized\<close>), at the \<^verbatim>\<open>select\<close> of the ticker loop, or returned.
\<close>

datatype run_pc = AwaitInitialized | Polling | Returned

record cache_sys =
  cache :: credentialsCache
  ext :: world
  ctx_Done :: bool
  run_at :: run_pc

text \<open>
  The events: a caller attaches the token source; the owning context is cancelled; the
  first \<^verbatim>\<open>select\<close> receives from \<^verbatim>\<open>initialized\<close> and the loop makes its first refresh
  attempt; the ticker fires and the loop polls; a \<^verbatim>\<open>select\<close> of the loop receives from
  \<^verbatim>\<open>ctx.Done()\<close>. When several cases of a \<^verbatim>\<open>select\<close> are ready, any of them may be the event.
\<close>

datatype cache_event =
    CallSetGenerateOIDCTokenFn GenerateOIDCTokenFn
  | CancelContext
  | RunInitialized
  | RunTick
  | RunContextDone

definition poll :: "cache_sys \<Rightarrow> cache_sys res" where
  "poll s = bind_res (refreshIfNeeded (cache s) (ext s))
              (\<lambda>(cc, w). Ok (s\<lparr>cache := cc, ext := w, run_at := Polling\<rparr>))"

fun cache_step :: "cache_event \<Rightarrow> cache_sys \<Rightarrow> cache_sys res" where
  "cache_step (CallSetGenerateOIDCTokenFn fn) s =
     bind_res (setGenerateOIDCTokenFn fn (cache s)) (\<lambda>cc. Ok (s\<lparr>cache := cc\<rparr>))"
| "cache_step CancelContext s = Ok (s\<lparr>ctx_Done := True\<rparr>)"
| "cache_step RunInitialized s =
     (if run_at s = AwaitInitialized \<and> initialized (cache s) then poll s else Blocked)"
| "cache_step RunTick s =
     (if run_at s = Polling then poll s else Blocked)"
| "cache_step RunContextDone s =
     (if run_at s \<noteq> Returned \<and> ctx_Done s then Ok (s\<lparr>run_at := Returned\<rparr>) else Blocked)"

fun cache_exec :: "cache_event list \<Rightarrow> cache_sys \<Rightarrow> cache_sys res" where
  "cache_exec [] s = Ok s"
| "cache_exec (e # es) s = bind_res (cache_step e s) (cache_exec es)"

definition newConfigurator :: "string \<Rightarrow> world \<Rightarrow> cache_sys" where
  "newConfigurator arn w =
     \<lparr>cache = newCredentialsCache arn, ext = w, ctx_Done = False, run_at = AwaitInitialized\<rparr>"

definition is_attach :: "cache_event \<Rightarrow> bool" where
  "is_attach e = (case e of CallSetGenerateOIDCTokenFn fn \<Rightarrow> True | _ \<Rightarrow> False)"


section \<open>The interval (lib/utils/interval/interval.go)\<close>

text \<open>
  \<^verbatim>\<open>retryutils.Jitter\<close> is a randomised function on durations, supplied by the caller: its
  \<open>k\<close>-th call, on \<open>d\<close>, returns \<open>j k d\<close>.
\<close>

type_synonym Jitter = "nat \<Rightarrow> duration \<Rightarrow> duration"

text \<open>
  \<^verbatim>\<open>clockwork.Clock\<close> is the real clock or a fake clock that tests move by hand. An instant
  of the world gives what the wall clock reads (\<^verbatim>\<open>time.Now()\<close>) and where the fake clock
  stands.
\<close>

datatype Clock = RealClock | FakeClock

record instant =
  wall :: time
  fake :: time

definition time_Now :: "instant \<Rightarrow> time" where
  "time_Now x = wall x"

fun Clock_Now :: "Clock \<Rightarrow> instant \<Rightarrow> time" where
  "Clock_Now RealClock x = time_Now x"
| "Clock_Now FakeClock x = fake x"

record Config =
  Duration :: duration
  FirstDuration :: duration
  Jitter :: "Jitter option"
  Clock :: "Clock option"

text \<open>
  A timer of the clock, as \<^verbatim>\<open>time.Timer\<close> behaves in the Go release the package was
  written for: \<open>armed\<close> holds the duration the timer is running for, \<open>Chan\<close> is its channel,
  buffered with capacity one. When the timer expires, the clock's reading is sent without
  blocking (and dropped if the buffer is full). \<^verbatim>\<open>Stop\<close> reports whether the timer was still
  running; \<^verbatim>\<open>Reset\<close> starts it again.
\<close>

record Timer =
  timer_clock :: Clock
  armed :: "duration option"
  Chan :: "time option"

definition NewTimer :: "Clock \<Rightarrow> duration \<Rightarrow> Timer" where
  "NewTimer c d = \<lparr>timer_clock = c, armed = Some d, Chan = None\<rparr>"

definition Timer_Stop :: "Timer \<Rightarrow> bool \<times> Timer" where
  "Timer_Stop t = (armed t \<noteq> None, t\<lparr>armed := None\<rparr>)"

definition Timer_Reset :: "duration \<Rightarrow> Timer \<Rightarrow> Timer" where
  "Timer_Reset d t = t\<lparr>armed := Some d\<rparr>"

definition Timer_expire :: "instant \<Rightarrow> Timer \<Rightarrow> Timer res" where
  "Timer_expire x t =
     (case armed t of
        None \<Rightarrow> Blocked
      | Some d \<Rightarrow>
          Ok (t\<lparr>armed := None,
                Chan := (case Chan t of None \<Rightarrow> Some (Clock_Now (timer_clock t) x)
                                     | Some v \<Rightarrow> Some v)\<rparr>))"

text \<open>
  The struct, together with the frame of its goroutine \<^verbatim>\<open>run\<close>. \<open>ch\<close> is the output
  channel (capacity one) with its buffered values, oldest first; \<open>done_closed\<close> says that
  \<^verbatim>\<open>done\<close> is closed and \<open>closeOnce\<close> that the \<^verbatim>\<open>sync.Once\<close> has run. Of the goroutine:
  its timer, its variable \<open>tick\<close>, whether its variable \<^verbatim>\<open>ch\<close> is \<^verbatim>\<open>i.ch\<close> (\<open>ch_set\<close>) or
  \<^verbatim>\<open>nil\<close>, and whether it is still in its loop. \<open>jitter_calls\<close> counts the calls of the
  jitter function. The channels \<^verbatim>\<open>reset\<close> and \<^verbatim>\<open>fire\<close> are unbuffered and hold nothing.
\<close>

record Interval =
  cfg :: Config
  ch :: "time list"
  done_closed :: bool
  closeOnce :: bool
  timer :: Timer
  tick :: time
  ch_set :: bool
  running :: bool
  jitter_calls :: nat

text \<open>\<^verbatim>\<open>duration\<close> reads the configuration only; the counter is the state of the jitter.\<close>

definition duration :: "Config \<Rightarrow> nat \<Rightarrow> duration \<times> nat" where
  "duration c k =
     (case Jitter c of
        None \<Rightarrow> (Duration c, k)
      | Some j \<Rightarrow> (j k (Duration c), Suc k))"

definition New :: "Config \<Rightarrow> Interval res" where
  "New c =
     (if Duration c \<le> 0 then Panic NonPositiveInterval
      else (let clock = (case Clock c of None \<Rightarrow> RealClock | Some k \<Rightarrow> k);
                (firstDuration, k) =
                   (if FirstDuration c = 0 then duration c 0 else (FirstDuration c, 0))
            in Ok \<lparr>cfg = c, ch = [], done_closed = False, closeOnce = False,
                   timer = NewTimer clock firstDuration, tick = 0, ch_set = False,
                   running = True, jitter_calls = k\<rparr>))"

definition Stop :: "Interval \<Rightarrow> Interval res" where
  "Stop i =
     (if closeOnce i then Ok i
      else bind_res (close_chan (done_closed i))
             (\<lambda>c. Ok (i\<lparr>done_closed := c, closeOnce := True\<rparr>)))"

text \<open>
  \<^verbatim>\<open>if !timer.Stop() { <-timer.Chan() }\<close>: when the timer is no longer running, one value is
  received from its channel, and the receive blocks while there is none.
\<close>

definition stop_and_drain :: "Timer \<Rightarrow> Timer res" where
  "stop_and_drain t =
     (let (active, t1) = Timer_Stop t
      in if \<not> active
         then (case Chan t1 of None \<Rightarrow> Blocked | Some v \<Rightarrow> Ok (t1\<lparr>Chan := None\<rparr>))
         else Ok t1)"

definition rearm :: "Timer \<Rightarrow> Interval \<Rightarrow> Interval" where
  "rearm t i =
     (let (d, k) = duration (cfg i) (jitter_calls i)
      in i\<lparr>timer := Timer_Reset d t, jitter_calls := k\<rparr>)"

text \<open>
  One turn of the loop of \<^verbatim>\<open>run\<close>: the \<^verbatim>\<open>select\<close> takes one of its five cases. A case
  that is not ready gives \<open>Blocked\<close>. The cases on \<^verbatim>\<open>reset\<close> and \<^verbatim>\<open>fire\<close> are ready when a
  caller is sending, which is what \<open>Reset\<close> and \<open>FireNow\<close> below do.
\<close>

datatype select_case = TimerChan | ResetChan | FireChan | SendTick | DoneChan

fun run_case :: "instant \<Rightarrow> select_case \<Rightarrow> Interval \<Rightarrow> Interval res" where
  "run_case x TimerChan i =
     (if \<not> running i then Blocked
      else case Chan (timer i) of
             None \<Rightarrow> Blocked
           | Some v \<Rightarrow> Ok ((rearm ((timer i)\<lparr>Chan := None\<rparr>) (i\<lparr>tick := v\<rparr>))\<lparr>ch_set := True\<rparr>))"
| "run_case x ResetChan i =
     (if \<not> running i then Blocked
      else bind_res (stop_and_drain (timer i))
             (\<lambda>t. Ok ((rearm t i)\<lparr>ch_set := False\<rparr>)))"
| "run_case x FireChan i =
     (if \<not> running i then Blocked
      else bind_res (stop_and_drain (timer i))
             (\<lambda>t. Ok ((rearm t i)\<lparr>tick := time_Now x, ch_set := True\<rparr>)))"
| "run_case x SendTick i =
     (if \<not> running i then Blocked
      else if ch_set i \<and> length (ch i) < 1
           then Ok (i\<lparr>ch := ch i @ [tick i], ch_set := False\<rparr>)
           else Blocked)"
| "run_case x DoneChan i =
     (if \<not> running i then Blocked
      else if done_closed i
           then Ok (i\<lparr>running := False, timer := snd (Timer_Stop (timer i))\<rparr>)
           else Blocked)"

text \<open>
  \<^verbatim>\<open>Reset\<close> and \<^verbatim>\<open>FireNow\<close>: a \<^verbatim>\<open>select\<close> between sending to the loop and receiving from
  \<^verbatim>\<open>done\<close>. Once \<^verbatim>\<open>done\<close> is closed the receive is ready and no loop is taking the send any
  more; before that the call completes when the loop takes it.
\<close>

definition Reset :: "instant \<Rightarrow> Interval \<Rightarrow> Interval res" where
  "Reset x i = (if done_closed i then Ok i else run_case x ResetChan i)"

definition FireNow :: "instant \<Rightarrow> Interval \<Rightarrow> Interval res" where
  "FireNow x i = (if done_closed i then Ok i else run_case x FireChan i)"

text \<open>A consumer receiving from \<^verbatim>\<open>Next()\<close>.\<close>

definition receive :: "Interval \<Rightarrow> (time \<times> Interval) res" where
  "receive i = (case ch i of [] \<Rightarrow> Blocked | t # ts \<Rightarrow> Ok (t, i\<lparr>ch := ts\<rparr>))"

text \<open>
  The events of an interval's life, each at an instant: its timer expires; the loop takes
  the timer case, hands the staged tick over, or takes the \<^verbatim>\<open>done\<close> case; a caller resets,
  fires or stops it; a consumer receives.
\<close>

datatype interval_event =
    TimerExpires
  | LoopTimer
  | LoopSend
  | LoopDone
  | CallReset
  | CallFireNow
  | CallStop
  | Receive

fun interval_step :: "instant \<times> interval_event \<Rightarrow> Interval \<Rightarrow> Interval res" where
  "interval_step (x, TimerExpires) i =
     bind_res (Timer_expire x (timer i)) (\<lambda>t. Ok (i\<lparr>timer := t\<rparr>))"
| "interval_step (x, LoopTimer) i = run_case x TimerChan i"
| "interval_step (x, LoopSend) i = run_case x SendTick i"
| "interval_step (x, LoopDone) i = run_case x DoneChan i"
| "interval_step (x, CallReset) i = Reset x i"
| "interval_step (x, CallFireNow) i = FireNow x i"
| "interval_step (x, CallStop) i = Stop i"
| "interval_step (x, Receive) i = bind_res (receive i) (\<lambda>(t, i'). Ok i')"

fun interval_exec :: "(instant \<times> interval_event) list \<Rightarrow> Interval \<Rightarrow> Interval res" where
  "interval_exec [] i = Ok i"
| "interval_exec (e # es) i = bind_res (interval_step e i) (interval_exec es)"


section \<open>Invariants and sample values\<close>

definition untouched :: "cache_sys \<Rightarrow> bool" where
  "untouched s \<longleftrightarrow>
     credsOrErr (cache s) = \<lparr>creds = zero_Credentials, err = Some not_yet_initialized\<rparr>
     \<and> run_at s \<noteq> Polling"

definition detached :: "cache_sys \<Rightarrow> bool" where
  "detached s \<longleftrightarrow> untouched s \<and> \<not> initialized (cache s)"

text \<open>Each one-shot closer has run exactly when its channel is closed.\<close>

definition latches_ok :: "credentialsCache \<Rightarrow> bool" where
  "latches_ok cc \<longleftrightarrow>
     (closeGotFirstCredsOrErr_ran cc \<longleftrightarrow> gotFirstCredsOrErr cc)
     \<and> (closeInitialized_ran cc \<longleftrightarrow> initialized cc)"

text \<open>Sample values: credentials expiring at a given instant, a token source that always
  succeeds, and a world whose clock stands at \<open>t\<close> and whose STS exchange always answers \<open>r\<close>.\<close>

definition sample_creds :: "time \<Rightarrow> Credentials" where
  "sample_creds t =
     \<lparr>AccessKeyID = ''AKIA'', SecretAccessKey = ''secret'', SessionToken = ''session'',
      Source = ''WebIdentityCredentials'', CanExpire = True, Expires = t\<rparr>"

definition static_token :: GenerateOIDCTokenFn where
  "static_token k = (''jwt'', None)"

definition fake_world :: "time \<Rightarrow> Credentials \<times> error option \<Rightarrow> world" where
  "fake_world t r =
     \<lparr>clock = (\<lambda>k. t), clock_reads = 0, token_calls = 0,
      sts_reply = (\<lambda>k arn tok. r), sts_calls = 0\<rparr>"

definition sts_down :: "Credentials \<times> error option" where
  "sts_down = (zero_Credentials, Some (errors_New ''sts unreachable''))"

definition before_first :: "cache_sys \<Rightarrow> bool" where
  "before_first s \<longleftrightarrow>
     latches_ok (cache s) \<and> untouched s \<and> \<not> gotFirstCredsOrErr (cache s)
     \<and> (initialized (cache s) \<longrightarrow> generateOIDCTokenFn (cache s) \<noteq> None)"

definition after_first :: "cache_sys \<Rightarrow> bool" where
  "after_first s \<longleftrightarrow>
     latches_ok (cache s) \<and> gotFirstCredsOrErr (cache s) \<and> initialized (cache s)
     \<and> generateOIDCTokenFn (cache s) \<noteq> None \<and> run_at s \<noteq> AwaitInitialized"

definition warm_cache :: "time \<Rightarrow> credentialsCache" where
  "warm_cache t =
     \<lparr>roleARN = ''arn'', generateOIDCTokenFn = Some static_token,
      initialized = True, closeInitialized_ran = True,
      gotFirstCredsOrErr = True, closeGotFirstCredsOrErr_ran = True,
      credsOrErr = \<lparr>creds = sample_creds t, err = None\<rparr>\<rparr>"

text \<open>
  What holds of an interval built by \<open>New c\<close> throughout its life: the configuration is
  never changed; the output channel holds at most one value; the \<^verbatim>\<open>sync.Once\<close> has run
  exactly when \<^verbatim>\<open>done\<close> is closed; while the loop runs, its timer is either running with an
  empty channel or expired with its firing still in the channel; the loop returns only
  after \<^verbatim>\<open>done\<close> was closed.
\<close>

definition interval_inv :: "Config \<Rightarrow> Interval \<Rightarrow> bool" where
  "interval_inv c i \<longleftrightarrow>
     cfg i = c \<and> 0 < Duration c
     \<and> length (ch i) \<le> 1
     \<and> (closeOnce i \<longleftrightarrow> done_closed i)
     \<and> (running i \<longrightarrow> (armed (timer i) = None \<longleftrightarrow> Chan (timer i) \<noteq> None))
     \<and> (\<not> running i \<longrightarrow> done_closed i)"

text \<open>Sample values for the interval.\<close>

definition zero_jitter :: Jitter where
  "zero_jitter k d = 0"

definition plain_config :: Config where
  "plain_config = \<lparr>Duration = 10, FirstDuration = 0, Jitter = None, Clock = None\<rparr>"

definition at_time :: "time \<Rightarrow> instant" where
  "at_time t = \<lparr>wall = t, fake = t\<rparr>"

definition fake_config :: Config where
  "fake_config = \<lparr>Duration = 10, FirstDuration = 0, Jitter = None, Clock = Some FakeClock\<rparr>"

definition stopped_pending :: Interval where
  "stopped_pending =
     \<lparr>cfg = plain_config, ch = [], done_closed = True, closeOnce = True,
      timer = \<lparr>timer_clock = RealClock, armed = None, Chan = Some 7\<rparr>,
      tick = 0, ch_set = False, running = True, jitter_calls = 0\<rparr>"

text \<open>The events that stage a tick, and the events that are turns of the loop.\<close>

definition stages :: "interval_event \<Rightarrow> bool" where
  "stages e \<longleftrightarrow> e = LoopTimer \<or> e = CallFireNow"

definition is_loop :: "interval_event \<Rightarrow> bool" where
  "is_loop e \<longleftrightarrow> e = LoopTimer \<or> e = LoopSend \<or> e = LoopDone"


section \<open>Properties of the credentials cache\<close>

lemma bind_res_Ok:
  "bind_res r f = Ok y \<longleftrightarrow> (\<exists>x. r = Ok x \<and> f x = Ok y)"
  by (cases r) auto

lemma closeInitialized_credsOrErr:
  "closeInitialized cc = Ok cc' \<Longrightarrow> credsOrErr cc' = credsOrErr cc"
  by (auto simp: closeInitialized_def close_chan_def split: if_splits)

lemma untouched_step:
  assumes "untouched s" and "cache_step e s = Ok s'" and "e \<noteq> RunInitialized"
  shows "untouched s'"
proof (cases e)
  case (CallSetGenerateOIDCTokenFn fn)
  with assms(2) obtain cc where cc: "setGenerateOIDCTokenFn fn (cache s) = Ok cc"
    and s': "s' = s\<lparr>cache := cc\<rparr>"
    by (auto simp: bind_res_Ok)
  from cc have "credsOrErr cc = credsOrErr (cache s)"
    by (auto simp: setGenerateOIDCTokenFn_def dest: closeInitialized_credsOrErr)
  with assms(1) s' show ?thesis by (simp add: untouched_def)
next
  case CancelContext
  with assms show ?thesis by (auto simp: untouched_def)
next
  case RunInitialized
  with assms(3) show ?thesis by simp
next
  case RunTick
  with assms show ?thesis by (auto simp: untouched_def)
next
  case RunContextDone
  with assms show ?thesis by (auto simp: untouched_def split: if_splits)
qed

lemma untouched_exec:
  "untouched s \<Longrightarrow> cache_exec es s = Ok s' \<Longrightarrow> RunInitialized \<notin> set es \<Longrightarrow> untouched s'"
proof (induction es arbitrary: s)
  case Nil
  then show ?case by simp
next
  case (Cons e es)
  from Cons.prems(2) obtain s1 where s1: "cache_step e s = Ok s1" and rest: "cache_exec es s1 = Ok s'"
    by (auto simp: bind_res_Ok)
  from Cons.prems(3) have "e \<noteq> RunInitialized" and "RunInitialized \<notin> set es" by auto
  with Cons.IH untouched_step [OF Cons.prems(1) s1] rest show ?case by blast
qed

lemma detached_step:
  assumes "detached s" and "cache_step e s = Ok s'" and "\<not> is_attach e"
  shows "detached s'"
proof (cases "e = RunInitialized")
  case True
  with assms(1,2) show ?thesis by (simp add: detached_def)
next
  case False
  with assms have u: "untouched s'" by (auto simp: detached_def dest: untouched_step)
  from assms False have "initialized (cache s') = initialized (cache s)"
    by (cases e) (auto simp: is_attach_def detached_def untouched_def split: if_splits)
  with u assms(1) show ?thesis by (simp add: detached_def)
qed

lemma detached_exec:
  "detached s \<Longrightarrow> cache_exec es s = Ok s' \<Longrightarrow> \<forall>e \<in> set es. \<not> is_attach e \<Longrightarrow> detached s'"
proof (induction es arbitrary: s)
  case Nil
  then show ?case by simp
next
  case (Cons e es)
  from Cons.prems(2) obtain s1 where s1: "cache_step e s = Ok s1" and rest: "cache_exec es s1 = Ok s'"
    by (auto simp: bind_res_Ok)
  from Cons.prems(3) have "\<not> is_attach e" and "\<forall>e \<in> set es. \<not> is_attach e" by auto
  with Cons.IH detached_step [OF Cons.prems(1) s1] rest show ?case by blast
qed

lemma detached_newConfigurator: "detached (newConfigurator arn w)"
  by (simp add: detached_def untouched_def newConfigurator_def newCredentialsCache_def)

text \<open>
  C3. From construction on, as long as the loop has not made its first refresh attempt
  (no \<open>RunInitialized\<close> event yet), and in particular as long as no token source has been
  attached, \<open>Retrieve\<close> returns the zero credentials together with the error "credential
  cache not yet initialized": a value (\<open>Retrieve\<close> cannot panic), and not a success.
\<close>

theorem Retrieve_before_first_attempt:
  assumes "cache_exec es (newConfigurator arn w) = Ok s"
    and "RunInitialized \<notin> set es \<or> (\<forall>e \<in> set es. \<not> is_attach e)"
  shows "Retrieve (cache s) = (zero_Credentials, Some not_yet_initialized)
         \<and> snd (Retrieve (cache s)) \<noteq> None"
proof -
  note init = detached_newConfigurator [of arn w]
  from assms(2) have "untouched s"
  proof
    assume "RunInitialized \<notin> set es"
    with init assms(1) show ?thesis
      using untouched_exec [of "newConfigurator arn w" es s] by (simp add: detached_def)
  next
    assume "\<forall>e \<in> set es. \<not> is_attach e"
    with init assms(1) show ?thesis
      using detached_exec [of "newConfigurator arn w" es s] by (simp add: detached_def)
  qed
  then show ?thesis by (simp add: untouched_def Retrieve_def)
qed

theorem Retrieve_before_first_attempt_witness:
  "\<exists>s. cache_exec [CallSetGenerateOIDCTokenFn static_token, CancelContext, RunContextDone]
          (newConfigurator ''arn'' (fake_world 0 sts_down)) = Ok s
       \<and> Retrieve (cache s) = (zero_Credentials, Some not_yet_initialized)"
proof -
  let ?es = "[CallSetGenerateOIDCTokenFn static_token, CancelContext, RunContextDone]"
  have "\<exists>s. cache_exec ?es (newConfigurator ''arn'' (fake_world 0 sts_down)) = Ok s"
    by (simp add: newConfigurator_def newCredentialsCache_def setGenerateOIDCTokenFn_def
        closeInitialized_def close_chan_def)
  then obtain s where s: "cache_exec ?es (newConfigurator ''arn'' (fake_world 0 sts_down)) = Ok s" ..
  have "RunInitialized \<notin> set ?es \<or> (\<forall>e \<in> set ?es. \<not> is_attach e)" by simp
  from Retrieve_before_first_attempt [OF s this] s show ?thesis by blast
qed

lemma setCredsOrErr_Ok:
  "latches_ok cc \<Longrightarrow>
   setCredsOrErr coe cc =
     Ok (cc\<lparr>credsOrErr := coe, gotFirstCredsOrErr := True, closeGotFirstCredsOrErr_ran := True\<rparr>)"
  by (auto simp: setCredsOrErr_def closeGotFirstCredsOrErr_def close_chan_def latches_ok_def)

lemma refresh_Ok:
  "generateOIDCTokenFn cc \<noteq> None \<Longrightarrow>
   \<exists>r w'. refresh cc w = Ok (r, w') \<and> token_calls w' = Suc (token_calls w)"
  by (auto simp: refresh_def Let_def split: prod.splits option.splits)

lemma refreshIfNeeded_Ok:
  assumes "latches_ok cc" and "generateOIDCTokenFn cc \<noteq> None"
  shows "\<exists>cc' w'. refreshIfNeeded cc w = Ok (cc', w') \<and>
           (cc' = cc \<or> (\<exists>coe. cc' = cc\<lparr>credsOrErr := coe, gotFirstCredsOrErr := True,
                                        closeGotFirstCredsOrErr_ran := True\<rparr>))"
proof -
  obtain b w1 where f: "fresh_enough (Retrieve cc) w = (b, w1)" by (cases "fresh_enough (Retrieve cc) w")
  obtain c e w2 where r: "refresh cc w1 = Ok ((c, e), w2)"
    using refresh_Ok [OF assms(2), of w1] by auto
  obtain v w3 where sv: "still_valid (creds (credsOrErr cc)) w2 = (v, w3)"
    by (cases "still_valid (creds (credsOrErr cc)) w2")
  show ?thesis
    using f r sv assms(1)
    by (cases e) (auto simp: refreshIfNeeded_def Retrieve_def setCredsOrErr_Ok)
qed

lemma refreshIfNeeded_first:
  assumes "latches_ok cc" and "generateOIDCTokenFn cc \<noteq> None"
    and "credsOrErr cc = \<lparr>creds = zero_Credentials, err = Some not_yet_initialized\<rparr>"
  shows "\<exists>coe w'. refreshIfNeeded cc w =
            Ok (cc\<lparr>credsOrErr := coe, gotFirstCredsOrErr := True,
                     closeGotFirstCredsOrErr_ran := True\<rparr>, w')"
proof -
  obtain c e w2 where r: "refresh cc w = Ok ((c, e), w2)"
    using refresh_Ok [OF assms(2), of w] by auto
  show ?thesis
    using r assms(1,3)
    by (cases e)
       (auto simp: refreshIfNeeded_def Retrieve_def fresh_enough_def still_valid_def
          HasKeys_def zero_Credentials_def setCredsOrErr_Ok)
qed


lemma latches_ok_simps [simp]:
  "latches_ok (cc\<lparr>credsOrErr := coe, gotFirstCredsOrErr := True,
                  closeGotFirstCredsOrErr_ran := True\<rparr>) \<longleftrightarrow>
     (closeInitialized_ran cc \<longleftrightarrow> initialized cc)"
  by (simp add: latches_ok_def)

lemma setGenerateOIDCTokenFn_Ok:
  "latches_ok cc \<Longrightarrow>
   setGenerateOIDCTokenFn fn cc =
     Ok (cc\<lparr>generateOIDCTokenFn := Some fn, initialized := True, closeInitialized_ran := True\<rparr>)"
  by (auto simp: setGenerateOIDCTokenFn_def closeInitialized_def close_chan_def latches_ok_def)

lemma before_first_step:
  assumes "before_first s" and "cache_step e s = Ok s'"
  shows "if e = RunInitialized then after_first s' else before_first s'"
proof (cases e)
  case (CallSetGenerateOIDCTokenFn fn)
  with assms show ?thesis
    by (auto simp: before_first_def setGenerateOIDCTokenFn_Ok untouched_def latches_ok_def)
next
  case CancelContext
  with assms show ?thesis by (auto simp: before_first_def untouched_def)
next
  case RunInitialized
  with assms(2) have en: "run_at s = AwaitInitialized" "initialized (cache s)" and p: "poll s = Ok s'"
    by (auto split: if_splits)
  from assms(1) en have l: "latches_ok (cache s)" and g: "generateOIDCTokenFn (cache s) \<noteq> None"
    and u: "credsOrErr (cache s) = \<lparr>creds = zero_Credentials, err = Some not_yet_initialized\<rparr>"
    by (auto simp: before_first_def untouched_def)
  from refreshIfNeeded_first [OF l g u, of "ext s"] p en g l
  have "after_first s'"
    by (auto simp: poll_def after_first_def latches_ok_def)
  with RunInitialized show ?thesis by simp
next
  case RunTick
  with assms show ?thesis by (auto simp: before_first_def untouched_def)
next
  case RunContextDone
  with assms show ?thesis by (auto simp: before_first_def untouched_def split: if_splits)
qed

lemma after_first_step:
  assumes "after_first s" and "cache_step e s = Ok s'"
  shows "after_first s'"
proof -
  from assms(1) have l: "latches_ok (cache s)" and g: "generateOIDCTokenFn (cache s) \<noteq> None"
    by (auto simp: after_first_def)
  have p: "poll s = Ok s' \<Longrightarrow> after_first s'"
    using refreshIfNeeded_Ok [OF l g, of "ext s"] assms(1)
    by (auto simp: poll_def after_first_def latches_ok_def)
  show ?thesis
  proof (cases e)
    case (CallSetGenerateOIDCTokenFn fn)
    with assms show ?thesis
      by (auto simp: after_first_def setGenerateOIDCTokenFn_Ok latches_ok_def)
  next
    case CancelContext
    with assms show ?thesis by (auto simp: after_first_def)
  next
    case RunInitialized
    with assms p show ?thesis by (auto split: if_splits)
  next
    case RunTick
    with assms p show ?thesis by (auto split: if_splits)
  next
    case RunContextDone
    with assms show ?thesis by (auto simp: after_first_def split: if_splits)
  qed
qed

lemma after_first_exec:
  "after_first s \<Longrightarrow> cache_exec es s = Ok s' \<Longrightarrow> after_first s'"
proof (induction es arbitrary: s)
  case Nil
  then show ?case by simp
next
  case (Cons e es)
  from Cons.prems(2) obtain s1 where "cache_step e s = Ok s1" and "cache_exec es s1 = Ok s'"
    by (auto simp: bind_res_Ok)
  with Cons.IH after_first_step [OF Cons.prems(1)] show ?case by blast
qed

lemma before_first_exec:
  "before_first s \<Longrightarrow> cache_exec es s = Ok s' \<Longrightarrow>
     (if RunInitialized \<in> set es then after_first s' else before_first s')"
proof (induction es arbitrary: s)
  case Nil
  then show ?case by simp
next
  case (Cons e es)
  from Cons.prems(2) obtain s1 where s1: "cache_step e s = Ok s1" and rest: "cache_exec es s1 = Ok s'"
    by (auto simp: bind_res_Ok)
  note st = before_first_step [OF Cons.prems(1) s1]
  show ?case
  proof (cases "e = RunInitialized")
    case True
    with st rest after_first_exec show ?thesis by auto
  next
    case False
    with st Cons.IH [OF _ rest] show ?thesis by auto
  qed
qed

lemma before_first_newConfigurator: "before_first (newConfigurator arn w)"
  by (simp add: before_first_def untouched_def latches_ok_def newConfigurator_def
      newCredentialsCache_def)

lemma reachable_latches_ok:
  assumes "cache_exec es (newConfigurator arn w) = Ok s"
  shows "latches_ok (cache s)"
  using before_first_exec [OF before_first_newConfigurator assms]
  by (auto simp: before_first_def after_first_def split: if_splits)

text \<open>
  C4. In every state reached from construction, \<open>waitForFirstCredsOrErr\<close> returns exactly when
  its context is cancelled or the loop's first refresh attempt has run, and is blocked
  otherwise. The latch \<open>gotFirstCredsOrErr\<close> is closed exactly when that first attempt has
  run, whatever the issuer answered: a failed first attempt publishes its error and closes
  the latch too. Every publication \<open>setCredsOrErr\<close> completes with the latch closed, and
  once the latch is closed the one-shot closer leaves the cache as it is: the channel is
  closed once and never a second time (which would panic).
\<close>

theorem first_result_latch:
  assumes "cache_exec es (newConfigurator arn w) = Ok s"
  shows "waitForFirstCredsOrErr cancelled (cache s) =
           (if cancelled \<or> RunInitialized \<in> set es then Ok () else Blocked)
         \<and> (gotFirstCredsOrErr (cache s) \<longleftrightarrow> RunInitialized \<in> set es)
         \<and> (\<forall>coe. setCredsOrErr coe (cache s) =
                Ok ((cache s)\<lparr>credsOrErr := coe, gotFirstCredsOrErr := True,
                              closeGotFirstCredsOrErr_ran := True\<rparr>))
         \<and> (gotFirstCredsOrErr (cache s) \<longrightarrow> closeGotFirstCredsOrErr (cache s) = Ok (cache s))"
proof -
  note inv = before_first_exec [OF before_first_newConfigurator assms]
  have l: "latches_ok (cache s)" by (rule reachable_latches_ok [OF assms])
  have g: "gotFirstCredsOrErr (cache s) \<longleftrightarrow> RunInitialized \<in> set es"
    using inv by (auto simp: before_first_def after_first_def split: if_splits)
  have c: "gotFirstCredsOrErr (cache s) \<longrightarrow> closeGotFirstCredsOrErr (cache s) = Ok (cache s)"
    using l by (simp add: closeGotFirstCredsOrErr_def latches_ok_def)
  show ?thesis
    using g c setCredsOrErr_Ok [OF l] by (simp add: waitForFirstCredsOrErr_def)
qed

theorem first_result_latch_witness:
  "\<exists>s. cache_exec [CallSetGenerateOIDCTokenFn static_token, RunInitialized]
          (newConfigurator ''arn'' (fake_world 0 sts_down)) = Ok s
       \<and> waitForFirstCredsOrErr False (cache s) = Ok ()
       \<and> gotFirstCredsOrErr (cache s)"
proof -
  let ?es = "[CallSetGenerateOIDCTokenFn static_token, RunInitialized]"
  let ?s0 = "newConfigurator ''arn'' (fake_world 0 sts_down)"
  have l: "latches_ok (cache ?s0)"
    by (simp add: newConfigurator_def newCredentialsCache_def latches_ok_def)
  have "\<exists>s1. cache_step (CallSetGenerateOIDCTokenFn static_token) ?s0 = Ok s1 \<and> before_first s1
          \<and> initialized (cache s1) \<and> run_at s1 = AwaitInitialized"
    using l
    by (simp add: setGenerateOIDCTokenFn_Ok before_first_def untouched_def latches_ok_def
        newConfigurator_def newCredentialsCache_def)
  then obtain s1 where s1: "cache_step (CallSetGenerateOIDCTokenFn static_token) ?s0 = Ok s1"
    and b: "before_first s1" and i: "initialized (cache s1)" and r: "run_at s1 = AwaitInitialized"
    by blast
  from b i have "\<exists>coe w'. refreshIfNeeded (cache s1) (ext s1) =
      Ok ((cache s1)\<lparr>credsOrErr := coe, gotFirstCredsOrErr := True,
                      closeGotFirstCredsOrErr_ran := True\<rparr>, w')"
    by (intro refreshIfNeeded_first) (auto simp: before_first_def untouched_def)
  then have "\<exists>s. cache_step RunInitialized s1 = Ok s"
    using i r by (auto simp: poll_def)
  then obtain s where "cache_step RunInitialized s1 = Ok s" ..
  with s1 have ex: "cache_exec ?es ?s0 = Ok s" by simp
  from first_result_latch [OF ex, of False] ex show ?thesis by auto
qed

text \<open>
  C1. Take a poll that attempts a refresh (the cached result is not fresh enough) and whose
  issuer invocation fails with error \<open>e\<close>. If the cached credentials have keys and their
  expiry is after the reading of the clock taken at that moment, the cache is left exactly
  as it was and \<open>Retrieve\<close> returns what it returned before. Otherwise (no keys, as on the
  first attempt, or expired) the cached result is replaced by the zero credentials with the
  wrapped error. The condition \<open>latches_ok\<close> holds of every cache the system reaches
  (\<open>reachable_latches_ok\<close>).
\<close>

theorem refreshIfNeeded_failure:
  assumes "latches_ok cc"
    and "fresh_enough (Retrieve cc) w = (False, w1)"
    and "refresh cc w1 = Ok ((c, Some e), w2)"
  shows "\<exists>cc' w'. refreshIfNeeded cc w = Ok (cc', w') \<and>
           (if HasKeys (fst (Retrieve cc))
               \<and> Before (clock w2 (clock_reads w2)) (Expires (fst (Retrieve cc)))
            then cc' = cc \<and> Retrieve cc' = Retrieve cc
            else credsOrErr cc' = \<lparr>creds = zero_Credentials, err = Some (Wrapped e)\<rparr>
                 \<and> Retrieve cc' = (zero_Credentials, Some (Wrapped e)))"
  using assms
  by (simp add: refreshIfNeeded_def Retrieve_def still_valid_def Now_def setCredsOrErr_Ok)

theorem refreshIfNeeded_failure_witness:
  "(\<exists>w'. refreshIfNeeded (warm_cache 1000) (fake_world 500 sts_down) = Ok (warm_cache 1000, w'))
   \<and> (\<exists>cc' w'. refreshIfNeeded (warm_cache 100) (fake_world 500 sts_down) = Ok (cc', w')
         \<and> Retrieve cc' = (zero_Credentials, Some (Wrapped (Wrapped (errors_New ''sts unreachable'')))))"
proof -
  let ?w = "fake_world 500 sts_down"
  let ?w1 = "?w\<lparr>clock_reads := 1\<rparr>"
  let ?w2 = "?w1\<lparr>token_calls := 1, sts_calls := 1\<rparr>"
  let ?e = "Wrapped (errors_New ''sts unreachable'')"
  have l: "latches_ok (warm_cache t)" for t by (simp add: latches_ok_def warm_cache_def)
  have f: "t \<le> 1000 \<Longrightarrow> fresh_enough (Retrieve (warm_cache t)) ?w = (False, ?w1)" for t
    by (simp add: fresh_enough_def Retrieve_def warm_cache_def sample_creds_def HasKeys_def
        Now_def fake_world_def Before_def Add_def refreshBeforeExpirationPeriod_def
        Minute_def Second_def)
  have r: "refresh (warm_cache t) ?w1 = Ok ((zero_Credentials, Some ?e), ?w2)" for t
    by (simp add: refresh_def warm_cache_def static_token_def fake_world_def sts_down_def)
  have va: "(HasKeys (fst (Retrieve (warm_cache 1000)))
               \<and> Before (clock ?w2 (clock_reads ?w2)) (Expires (fst (Retrieve (warm_cache 1000))))) = True"
    by (simp add: Retrieve_def warm_cache_def sample_creds_def HasKeys_def Before_def
        fake_world_def)
  have vb: "(HasKeys (fst (Retrieve (warm_cache 100)))
               \<and> Before (clock ?w2 (clock_reads ?w2)) (Expires (fst (Retrieve (warm_cache 100))))) = False"
    by (simp add: Retrieve_def warm_cache_def sample_creds_def HasKeys_def Before_def
        fake_world_def)
  have a: "\<exists>w'. refreshIfNeeded (warm_cache 1000) ?w = Ok (warm_cache 1000, w')"
    using refreshIfNeeded_failure [OF l [of 1000] f [of 1000] r [of 1000]]
    unfolding va if_True by auto
  have b: "\<exists>cc' w'. refreshIfNeeded (warm_cache 100) ?w = Ok (cc', w')
         \<and> Retrieve cc' = (zero_Credentials, Some (Wrapped ?e))"
    using refreshIfNeeded_failure [OF l [of 100] f [of 100] r [of 100]]
    unfolding vb if_False by auto
  from a b show ?thesis by blast
qed

text \<open>
  C2. The safety margin is 15 minutes. If the cached result has a nil error and credentials
  with keys whose expiry is more than the margin after the clock reading, the poll returns
  with the cache unchanged and the issuer counters untouched (only the clock was read).
  Otherwise a refresh is attempted: the token function is called once (and the call panics
  if none is attached, which the loop excludes by waiting for \<open>initialized\<close>).
\<close>

theorem refreshIfNeeded_margin:
  "refreshBeforeExpirationPeriod = 15 * 60 * 1000000000 \<and>
   (if err (credsOrErr cc) = None \<and> HasKeys (creds (credsOrErr cc))
       \<and> clock w (clock_reads w) + refreshBeforeExpirationPeriod < Expires (creds (credsOrErr cc))
    then refreshIfNeeded cc w = Ok (cc, w\<lparr>clock_reads := Suc (clock_reads w)\<rparr>)
    else (generateOIDCTokenFn cc = None \<longrightarrow> refreshIfNeeded cc w = Panic NilFunctionCall)
         \<and> (generateOIDCTokenFn cc \<noteq> None \<and> latches_ok cc \<longrightarrow>
              (\<exists>cc' w'. refreshIfNeeded cc w = Ok (cc', w')
                 \<and> token_calls w' = Suc (token_calls w))))"
  by (auto simp: refreshIfNeeded_def Retrieve_def fresh_enough_def still_valid_def Now_def
        setCredsOrErr_Ok refresh_def refreshBeforeExpirationPeriod_def Minute_def Second_def
        Let_def Before_def Add_def
      split: prod.splits option.splits)

theorem refreshIfNeeded_margin_witness:
  "refreshIfNeeded (warm_cache Hour) (fake_world 0 sts_down) =
      Ok (warm_cache Hour, (fake_world 0 sts_down)\<lparr>clock_reads := 1\<rparr>)
   \<and> (\<exists>cc' w'. refreshIfNeeded (warm_cache Hour) (fake_world (50 * Minute) sts_down) = Ok (cc', w')
         \<and> token_calls w' = 1)"
proof -
  have l: "latches_ok (warm_cache Hour)" by (simp add: latches_ok_def warm_cache_def)
  have a: "refreshIfNeeded (warm_cache Hour) (fake_world 0 sts_down) =
      Ok (warm_cache Hour, (fake_world 0 sts_down)\<lparr>clock_reads := 1\<rparr>)"
    using refreshIfNeeded_margin [of "warm_cache Hour" "fake_world 0 sts_down"]
    by (simp add: warm_cache_def sample_creds_def HasKeys_def fake_world_def
        refreshBeforeExpirationPeriod_def Hour_def Minute_def Second_def)
  have b: "\<exists>cc' w'. refreshIfNeeded (warm_cache Hour) (fake_world (50 * Minute) sts_down) = Ok (cc', w')
         \<and> token_calls w' = 1"
    using refreshIfNeeded_margin [of "warm_cache Hour" "fake_world (50 * Minute) sts_down"] l
    by (simp add: warm_cache_def sample_creds_def HasKeys_def fake_world_def
        refreshBeforeExpirationPeriod_def Hour_def Minute_def Second_def)
  from a b show ?thesis by blast
qed

text \<open>
  C9, as the code has it. After a poll whose issuer invocation succeeds with credentials
  \<open>c\<close>, the cached result is exactly \<open>c\<close> with a nil error, and \<open>Retrieve\<close> returns it. The
  expiry of \<open>c\<close> is stored as the issuer reported it; it is not compared with the clock.
\<close>

theorem refreshIfNeeded_success:
  assumes "latches_ok cc"
    and "fresh_enough (Retrieve cc) w = (False, w1)"
    and "refresh cc w1 = Ok ((c, None), w2)"
  shows "refreshIfNeeded cc w =
           Ok (cc\<lparr>credsOrErr := \<lparr>creds = c, err = None\<rparr>,
                   gotFirstCredsOrErr := True, closeGotFirstCredsOrErr_ran := True\<rparr>, w2)
         \<and> Retrieve (cc\<lparr>credsOrErr := \<lparr>creds = c, err = None\<rparr>,
                   gotFirstCredsOrErr := True, closeGotFirstCredsOrErr_ran := True\<rparr>) = (c, None)"
  using assms
  by (simp add: refreshIfNeeded_def Retrieve_def setCredsOrErr_Ok)

text \<open>
  C9 as stated fails: with the clock at 500, an issuer that answers credentials expiring at
  200 succeeds, and these credentials are stored although their expiry is not in the future.
\<close>

theorem refreshIfNeeded_stores_expired:
  "refreshIfNeeded (warm_cache 100) (fake_world 500 (sample_creds 200, None)) =
     Ok (warm_cache 200,
         (fake_world 500 (sample_creds 200, None))\<lparr>clock_reads := 1, token_calls := 1, sts_calls := 1\<rparr>)
   \<and> Retrieve (warm_cache 200) = (sample_creds 200, None)
   \<and> fst (Now ((fake_world 500 (sample_creds 200, None))\<lparr>clock_reads := 1, token_calls := 1, sts_calls := 1\<rparr>)) = 500
   \<and> \<not> Before 500 (Expires (sample_creds 200))"
  by (simp add: refreshIfNeeded_def Retrieve_def fresh_enough_def still_valid_def Now_def
        refresh_def setCredsOrErr_def closeGotFirstCredsOrErr_def warm_cache_def sample_creds_def
        HasKeys_def fake_world_def static_token_def Before_def Add_def
        refreshBeforeExpirationPeriod_def Minute_def Second_def)

theorem refreshIfNeeded_success_witness:
  "refreshIfNeeded (warm_cache 100) (fake_world 500 (sample_creds (500 + Hour), None)) =
     Ok (warm_cache (500 + Hour),
         (fake_world 500 (sample_creds (500 + Hour), None))\<lparr>clock_reads := 1, token_calls := 1, sts_calls := 1\<rparr>)"
proof -
  let ?w = "fake_world 500 (sample_creds (500 + Hour), None)"
  let ?w1 = "?w\<lparr>clock_reads := 1\<rparr>"
  let ?w2 = "?w\<lparr>clock_reads := 1, token_calls := 1, sts_calls := 1\<rparr>"
  have l: "latches_ok (warm_cache 100)" by (simp add: latches_ok_def warm_cache_def)
  have f: "fresh_enough (Retrieve (warm_cache 100)) ?w = (False, ?w1)"
    by (simp add: fresh_enough_def Retrieve_def warm_cache_def sample_creds_def HasKeys_def
        Now_def fake_world_def Before_def Add_def refreshBeforeExpirationPeriod_def
        Minute_def Second_def)
  have r: "refresh (warm_cache 100) ?w1 = Ok ((sample_creds (500 + Hour), None), ?w2)"
    by (simp add: refresh_def warm_cache_def static_token_def fake_world_def)
  from refreshIfNeeded_success [OF l f r] show ?thesis
    by (simp add: warm_cache_def)
qed

section \<open>Properties of the interval\<close>

lemma New_inv: "New c = Ok i \<Longrightarrow> interval_inv c i"
  by (auto simp: New_def interval_inv_def NewTimer_def Let_def split: if_splits prod.splits)

lemma rearm_simps [simp]:
  "cfg (rearm t i) = cfg i" "ch (rearm t i) = ch i" "done_closed (rearm t i) = done_closed i"
  "closeOnce (rearm t i) = closeOnce i" "running (rearm t i) = running i"
  "tick (rearm t i) = tick i" "ch_set (rearm t i) = ch_set i"
  "timer (rearm t i) = t\<lparr>armed := Some (fst (duration (cfg i) (jitter_calls i)))\<rparr>"
  "jitter_calls (rearm t i) = snd (duration (cfg i) (jitter_calls i))"
  by (simp_all add: rearm_def Timer_Reset_def split: prod.splits)

lemma stop_and_drain_Ok:
  "(armed t = None \<longleftrightarrow> Chan t \<noteq> None) \<Longrightarrow>
     stop_and_drain t = Ok (t\<lparr>armed := None, Chan := None\<rparr>)"
  by (cases "armed t"; cases "Chan t") (auto simp: stop_and_drain_def Timer_Stop_def)

lemma run_case_inv:
  assumes "interval_inv c i" and "run_case x sc i = Ok i'"
  shows "interval_inv c i'"
proof (cases sc)
  case TimerChan
  with assms show ?thesis
    by (auto simp: interval_inv_def split: if_splits option.splits)
next
  case ResetChan
  with assms show ?thesis
    by (auto simp: interval_inv_def stop_and_drain_Ok split: if_splits)
next
  case FireChan
  with assms show ?thesis
    by (auto simp: interval_inv_def stop_and_drain_Ok split: if_splits)
next
  case SendTick
  with assms show ?thesis
    by (auto simp: interval_inv_def split: if_splits)
next
  case DoneChan
  with assms show ?thesis
    by (auto simp: interval_inv_def split: if_splits)
qed

lemma Stop_Ok:
  "(closeOnce i \<longleftrightarrow> done_closed i) \<Longrightarrow>
     Stop i = Ok (i\<lparr>done_closed := True, closeOnce := True\<rparr>)"
  by (cases "closeOnce i") (auto simp: Stop_def close_chan_def)

lemma interval_step_inv:
  assumes "interval_inv c i" and "interval_step e i = Ok i'"
  shows "interval_inv c i'"
proof (cases e)
  case (Pair x ev)
  show ?thesis
  proof (cases ev)
    case TimerExpires
    with Pair assms show ?thesis
      by (auto simp: interval_inv_def Timer_expire_def bind_res_Ok split: option.splits)
  next
    case CallReset
    with Pair assms show ?thesis
      by (auto simp: Reset_def simp del: run_case.simps split: if_splits dest: run_case_inv)
  next
    case CallFireNow
    with Pair assms show ?thesis
      by (auto simp: FireNow_def simp del: run_case.simps split: if_splits dest: run_case_inv)
  next
    case CallStop
    with Pair assms show ?thesis
      by (auto simp: interval_inv_def Stop_Ok)
  next
    case Receive
    with Pair assms show ?thesis
      by (auto simp: interval_inv_def receive_def bind_res_Ok split: list.splits)
  qed (use Pair assms in \<open>auto simp del: run_case.simps dest: run_case_inv\<close>)
qed

lemma interval_exec_inv:
  "interval_inv c i \<Longrightarrow> interval_exec es i = Ok i' \<Longrightarrow> interval_inv c i'"
proof (induction es arbitrary: i)
  case Nil
  then show ?case by simp
next
  case (Cons e es)
  from Cons.prems(2) obtain i1 where "interval_step e i = Ok i1" and "interval_exec es i1 = Ok i'"
    by (auto simp: bind_res_Ok)
  with Cons.IH interval_step_inv [OF Cons.prems(1)] show ?case by blast
qed

text \<open>
  C8. \<open>New\<close> panics, with the non-positive-interval panic and no other, exactly when the
  configured \<open>Duration\<close> is zero or negative. For every positive \<open>Duration\<close> it returns an
  interval that keeps the configuration as given (the duration is not clamped), whose timer
  is running and whose goroutine has been started.
\<close>

theorem New_panics_iff:
  "(New c = Panic NonPositiveInterval \<longleftrightarrow> Duration c \<le> 0)
   \<and> (\<forall>p. New c = Panic p \<longrightarrow> Duration c \<le> 0)
   \<and> (0 < Duration c \<longrightarrow>
        (\<exists>i. New c = Ok i \<and> running i \<and> cfg i = c \<and> Duration (cfg i) = Duration c
             \<and> armed (timer i) \<noteq> None \<and> \<not> done_closed i))"
proof (cases "Duration c \<le> 0")
  case True
  then have "New c = Panic NonPositiveInterval" by (simp add: New_def)
  with True show ?thesis by simp
next
  case False
  obtain d k where dk: "(if FirstDuration c = 0 then duration c 0 else (FirstDuration c, 0)) = (d, k)"
    by (cases "if FirstDuration c = 0 then duration c 0 else (FirstDuration c, 0)")
  with False have "New c =
      Ok \<lparr>cfg = c, ch = [], done_closed = False, closeOnce = False,
          timer = NewTimer (case Clock c of None \<Rightarrow> RealClock | Some k \<Rightarrow> k) d,
          tick = 0, ch_set = False, running = True, jitter_calls = k\<rparr>"
    by (simp add: New_def)
  with False show ?thesis by (simp add: NewTimer_def)
qed

theorem New_panics_iff_witness:
  "New (plain_config\<lparr>Duration := 0\<rparr>) = Panic NonPositiveInterval
   \<and> New (plain_config\<lparr>Duration := - 5\<rparr>) = Panic NonPositiveInterval
   \<and> (\<exists>i. New plain_config = Ok i \<and> running i \<and> cfg i = plain_config)"
proof -
  have a: "New (plain_config\<lparr>Duration := 0\<rparr>) = Panic NonPositiveInterval"
    using New_panics_iff [of "plain_config\<lparr>Duration := 0\<rparr>"] by simp
  have b: "New (plain_config\<lparr>Duration := - 5\<rparr>) = Panic NonPositiveInterval"
    using New_panics_iff [of "plain_config\<lparr>Duration := - 5\<rparr>"] by simp
  have "0 < Duration plain_config" by (simp add: plain_config_def)
  with New_panics_iff [of plain_config]
  have c: "\<exists>i. New plain_config = Ok i \<and> running i \<and> cfg i = plain_config" by blast
  from a b c show ?thesis by blast
qed

lemma duration_fst:
  "fst (duration c k) = (case Jitter c of None \<Rightarrow> Duration c | Some j \<Rightarrow> j k (Duration c))"
  by (simp add: duration_def split: option.splits)

lemma duration_snd:
  "snd (duration c k) = (case Jitter c of None \<Rightarrow> k | Some j \<Rightarrow> Suc k)"
  by (simp add: duration_def split: option.splits)

text \<open>
  C7, as the code has it. For an interval built by \<open>New c\<close>: the first wait is
  \<open>FirstDuration\<close> itself, with the jitter not called, when \<open>FirstDuration\<close> is not zero;
  when it is zero the first wait is the first value of the jitter on \<open>Duration\<close>, or
  \<open>Duration\<close> when no jitter is configured, and this is positive provided the jitter, if
  any, returned a positive value. Every later wait, set when the loop takes its timer,
  reset or fire case, is the next value of the jitter on \<open>Duration\<close>, or \<open>Duration\<close> itself
  when no jitter is configured.
\<close>

theorem first_and_later_waits:
  assumes "New c = Ok i" and "interval_exec es i = Ok s"
  shows "armed (timer i) =
           Some (if FirstDuration c \<noteq> 0 then FirstDuration c
                 else case Jitter c of None \<Rightarrow> Duration c | Some j \<Rightarrow> j 0 (Duration c))
         \<and> (FirstDuration c \<noteq> 0 \<longrightarrow> jitter_calls i = 0)
         \<and> (FirstDuration c = 0
              \<and> (case Jitter c of None \<Rightarrow> True | Some j \<Rightarrow> 0 < j 0 (Duration c))
              \<longrightarrow> (\<exists>d. armed (timer i) = Some d \<and> 0 < d))
         \<and> (\<forall>x sc s'. sc \<in> {TimerChan, ResetChan, FireChan} \<and> run_case x sc s = Ok s' \<longrightarrow>
               armed (timer s') =
                 Some (case Jitter c of None \<Rightarrow> Duration c
                                      | Some j \<Rightarrow> j (jitter_calls s) (Duration c))
               \<and> jitter_calls s' = (case Jitter c of None \<Rightarrow> jitter_calls s
                                                    | Some j \<Rightarrow> Suc (jitter_calls s)))"
proof -
  from assms(1) have pos: "0 < Duration c"
    by (auto simp: New_def split: if_splits)
  have first: "armed (timer i) =
           Some (if FirstDuration c \<noteq> 0 then FirstDuration c
                 else case Jitter c of None \<Rightarrow> Duration c | Some j \<Rightarrow> j 0 (Duration c))"
    and unj: "FirstDuration c \<noteq> 0 \<longrightarrow> jitter_calls i = 0"
    using assms(1)
    by (auto simp: New_def NewTimer_def duration_def Let_def split: if_splits option.splits)
  have later: "armed (timer s') =
                 Some (case Jitter c of None \<Rightarrow> Duration c
                                      | Some j \<Rightarrow> j (jitter_calls s) (Duration c))
               \<and> jitter_calls s' = (case Jitter c of None \<Rightarrow> jitter_calls s
                                                    | Some j \<Rightarrow> Suc (jitter_calls s))"
    if "sc \<in> {TimerChan, ResetChan, FireChan}" and "run_case x sc s = Ok s'" for x sc s'
  proof -
    have inv: "interval_inv c s"
      using interval_exec_inv [OF New_inv [OF assms(1)] assms(2)] .
    then have c: "cfg s = c" by (simp add: interval_inv_def)
    from inv that(2) have sd: "running s \<Longrightarrow> stop_and_drain (timer s) = Ok ((timer s)\<lparr>armed := None, Chan := None\<rparr>)"
      by (intro stop_and_drain_Ok) (simp add: interval_inv_def)
    from that c sd show ?thesis
      by (auto simp: duration_fst duration_snd split: if_splits option.splits)
  qed
  from first unj pos later show ?thesis
    by (auto split: option.splits)
qed

theorem first_and_later_waits_witness:
  "\<exists>i s s'. New (plain_config\<lparr>FirstDuration := 3\<rparr>) = Ok i
      \<and> interval_exec [(at_time 3, TimerExpires)] i = Ok s
      \<and> armed (timer i) = Some 3
      \<and> run_case (at_time 3) TimerChan s = Ok s'
      \<and> armed (timer s') = Some 10"
proof -
  let ?c = "plain_config\<lparr>FirstDuration := 3\<rparr>"
  obtain i where i: "New ?c = Ok i"
    by (simp add: New_def plain_config_def)
  then have ti: "timer i = NewTimer RealClock 3" and ri: "running i"
    by (auto simp: New_def plain_config_def)
  obtain s where s: "interval_exec [(at_time 3, TimerExpires)] i = Ok s"
    using ti by (simp add: Timer_expire_def NewTimer_def)
  then have "running s" and "Chan (timer s) \<noteq> None"
    using ti ri by (auto simp: Timer_expire_def NewTimer_def)
  then obtain s' where s': "run_case (at_time 3) TimerChan s = Ok s'"
    by auto
  note w = first_and_later_waits [OF i s]
  from w have a: "armed (timer i) = Some 3"
    by (simp add: plain_config_def)
  from w have "\<forall>x sc s'. sc \<in> {TimerChan, ResetChan, FireChan} \<and> run_case x sc s = Ok s' \<longrightarrow>
      armed (timer s') = Some 10"
    by (simp add: plain_config_def del: run_case.simps)
  with s' have b: "armed (timer s') = Some 10" by blast
  from i s s' a b show ?thesis by blast
qed

text \<open>
  C7 as stated fails in its "never an immediate fire": the jitter is the caller's function,
  and with one that returns zero the timer of a configuration with \<open>FirstDuration = 0\<close> is
  started with a wait of zero.
\<close>

theorem zero_jitter_fires_at_once:
  "New (plain_config\<lparr>Jitter := Some zero_jitter\<rparr>) =
     Ok \<lparr>cfg = plain_config\<lparr>Jitter := Some zero_jitter\<rparr>, ch = [], done_closed = False,
         closeOnce = False, timer = NewTimer RealClock 0, tick = 0, ch_set = False,
         running = True, jitter_calls = 1\<rparr>
   \<and> FirstDuration (plain_config\<lparr>Jitter := Some zero_jitter\<rparr>) = 0
   \<and> armed (NewTimer RealClock 0) = Some 0"
  by (simp add: New_def plain_config_def duration_def zero_jitter_def NewTimer_def)

text \<open>
  C6. In every state an interval built by \<open>New\<close> can reach with its loop running, the
  timer's channel holds a stale firing exactly when the timer has expired, so stopping and
  draining never blocks and leaves the timer stopped with an empty channel: a pending
  firing is cancelled, and the one stale firing there can be is received. When the loop
  takes a reset request, the timer is then set to the next value of the jitter on
  \<open>Duration\<close> (to \<open>Duration\<close> without jitter), the staged tick is dropped, the output
  channel is left as it is, and neither a send nor the timer case is ready afterwards. A
  call of \<open>Reset\<close> before \<^verbatim>\<open>done\<close> is closed is such a request to a running loop; once
  \<^verbatim>\<open>done\<close> is closed, \<open>Reset\<close> returns at once and changes nothing.
\<close>

theorem Reset_observed:
  assumes "New c = Ok i0" and "interval_exec es i0 = Ok s"
  shows "(running s \<longrightarrow>
            (Chan (timer s) \<noteq> None \<longleftrightarrow> armed (timer s) = None)
            \<and> stop_and_drain (timer s) = Ok ((timer s)\<lparr>armed := None, Chan := None\<rparr>)
            \<and> (\<exists>s'. run_case x ResetChan s = Ok s'
                  \<and> timer s' = (timer s)\<lparr>armed := Some (case Jitter c of None \<Rightarrow> Duration c
                                               | Some j \<Rightarrow> j (jitter_calls s) (Duration c)),
                                          Chan := None\<rparr>
                  \<and> \<not> ch_set s' \<and> ch s' = ch s \<and> running s'
                  \<and> run_case y SendTick s' = Blocked
                  \<and> run_case y TimerChan s' = Blocked))
         \<and> (\<not> done_closed s \<longrightarrow> running s \<and> Reset x s = run_case x ResetChan s)
         \<and> (done_closed s \<longrightarrow> Reset x s = Ok s)"
proof -
  have inv: "interval_inv c s"
    using interval_exec_inv [OF New_inv [OF assms(1)] assms(2)] .
  then have c: "cfg s = c" by (simp add: interval_inv_def)
  have t: "running s \<Longrightarrow> (Chan (timer s) \<noteq> None \<longleftrightarrow> armed (timer s) = None)"
    using inv by (auto simp: interval_inv_def)
  have sd: "running s \<Longrightarrow> stop_and_drain (timer s) = Ok ((timer s)\<lparr>armed := None, Chan := None\<rparr>)"
    using t by (intro stop_and_drain_Ok) auto
  have r: "running s \<Longrightarrow> (\<exists>s'. run_case x ResetChan s = Ok s'
                  \<and> timer s' = (timer s)\<lparr>armed := Some (case Jitter c of None \<Rightarrow> Duration c
                                               | Some j \<Rightarrow> j (jitter_calls s) (Duration c)),
                                          Chan := None\<rparr>
                  \<and> \<not> ch_set s' \<and> ch s' = ch s \<and> running s'
                  \<and> run_case y SendTick s' = Blocked
                  \<and> run_case y TimerChan s' = Blocked)"
    using sd c by (simp add: duration_fst)
  have d: "\<not> done_closed s \<longrightarrow> running s \<and> Reset x s = run_case x ResetChan s"
    using inv by (auto simp: interval_inv_def Reset_def)
  have e: "done_closed s \<longrightarrow> Reset x s = Ok s" by (simp add: Reset_def)
  from t sd r d e show ?thesis by blast
qed

theorem Reset_observed_witness:
  "\<exists>i0 s s'. New plain_config = Ok i0
      \<and> interval_exec [(at_time 10, TimerExpires)] i0 = Ok s
      \<and> running s \<and> Chan (timer s) = Some 10
      \<and> run_case (at_time 11) ResetChan s = Ok s'
      \<and> timer s' = \<lparr>timer_clock = RealClock, armed = Some 10, Chan = None\<rparr>
      \<and> \<not> ch_set s'"
proof -
  obtain i0 where i0: "New plain_config = Ok i0"
    by (simp add: New_def plain_config_def duration_def)
  then have ti: "timer i0 = NewTimer RealClock 10" and ri: "running i0"
    by (auto simp: New_def plain_config_def duration_def)
  obtain s where s: "interval_exec [(at_time 10, TimerExpires)] i0 = Ok s"
    using ti by (simp add: Timer_expire_def NewTimer_def)
  then have rs: "running s"
    and ts: "timer s = \<lparr>timer_clock = RealClock, armed = None, Chan = Some 10\<rparr>"
    using ti ri by (auto simp: Timer_expire_def NewTimer_def at_time_def time_Now_def)
  from Reset_observed [OF i0 s, of "at_time 11" "at_time 11"] rs
  obtain s' where "run_case (at_time 11) ResetChan s = Ok s'"
    and "timer s' = (timer s)\<lparr>armed := Some (case Jitter plain_config of None \<Rightarrow> Duration plain_config
                                               | Some j \<Rightarrow> j (jitter_calls s) (Duration plain_config)),
                                 Chan := None\<rparr>"
    and "\<not> ch_set s'"
    by blast
  with i0 s rs ts show ?thesis
    by (auto simp: plain_config_def)
qed

text \<open>
  C10 fails on the code. For an interval configured with a fake clock, read at an instant
  when the wall clock shows 1000 and the fake clock stands at 5: the fire case stages the
  tick 1000, the reading of \<^verbatim>\<open>time.Now()\<close>, and not 5, the configured clock's now. The timer
  is set to the full \<open>Duration\<close> again.
\<close>

theorem FireNow_tick_is_wall_time:
  "bind_res (New fake_config) (FireNow \<lparr>wall = 1000, fake = 5\<rparr>) =
     Ok \<lparr>cfg = fake_config, ch = [], done_closed = False, closeOnce = False,
         timer = NewTimer FakeClock 10, tick = 1000, ch_set = True,
         running = True, jitter_calls = 0\<rparr>
   \<and> Clock_Now FakeClock \<lparr>wall = 1000, fake = 5\<rparr> = 5"
  by (simp add: New_def fake_config_def duration_def FireNow_def stop_and_drain_def
      Timer_Stop_def NewTimer_def rearm_def Timer_Reset_def time_Now_def)

lemma Stop_fields:
  "Stop i = Ok i' \<Longrightarrow>
     ch i' = ch i \<and> ch_set i' = ch_set i \<and> tick i' = tick i \<and> running i' = running i
     \<and> timer i' = timer i"
  by (auto simp: Stop_def close_chan_def bind_res_Ok split: if_splits)

lemma unstaged_step:
  assumes "\<not> ch_set i" and "interval_step e i = Ok i'" and "\<not> stages (snd e)"
  shows "\<not> ch_set i' \<and> snd e \<noteq> LoopSend"
proof (cases e)
  case (Pair x ev)
  with assms show ?thesis
    by (cases ev)
       (auto simp: stages_def Reset_def receive_def bind_res_Ok
          split: if_splits list.splits dest: Stop_fields)
qed

lemma unstaged_exec:
  "\<not> ch_set i \<Longrightarrow> interval_exec es i = Ok i' \<Longrightarrow> \<forall>e \<in> set es. \<not> stages (snd e) \<Longrightarrow>
     \<not> ch_set i' \<and> (\<forall>e \<in> set es. snd e \<noteq> LoopSend)"
proof (induction es arbitrary: i)
  case Nil
  then show ?case by simp
next
  case (Cons e es)
  from Cons.prems(2) obtain i1 where i1: "interval_step e i = Ok i1" and rest: "interval_exec es i1 = Ok i'"
    by (auto simp: bind_res_Ok)
  from Cons.prems(3) have ne: "\<not> stages (snd e)" and nes: "\<forall>e \<in> set es. \<not> stages (snd e)" by auto
  from unstaged_step [OF Cons.prems(1) i1 ne] Cons.IH [OF _ rest nes] show ?case by auto
qed

lemma returned_step:
  assumes "interval_inv c i" and "\<not> running i" and "interval_step e i = Ok i'"
  shows "\<not> running i' \<and> (ch i' = ch i \<or> ch i' = tl (ch i)) \<and> ch_set i' = ch_set i
         \<and> tick i' = tick i \<and> \<not> is_loop (snd e)"
proof (cases e)
  case (Pair x ev)
  from assms(1,2) have d: "done_closed i" by (simp add: interval_inv_def)
  from Pair assms d show ?thesis
    by (cases ev)
       (auto simp: is_loop_def Reset_def FireNow_def receive_def bind_res_Ok
          split: if_splits list.splits dest: Stop_fields)
qed

lemma returned_exec:
  "interval_inv c i \<Longrightarrow> \<not> running i \<Longrightarrow> interval_exec es i = Ok i' \<Longrightarrow>
     \<not> running i' \<and> (\<exists>k. ch i' = drop k (ch i)) \<and> ch_set i' = ch_set i \<and> tick i' = tick i
     \<and> (\<forall>e \<in> set es. \<not> is_loop (snd e))"
proof (induction es arbitrary: i)
  case Nil
  have "\<exists>k. ch i = drop k (ch i)" by (rule exI [of _ 0]) simp
  with Nil show ?case by simp
next
  case (Cons e es)
  from Cons.prems(3) obtain i1 where i1: "interval_step e i = Ok i1" and rest: "interval_exec es i1 = Ok i'"
    by (auto simp: bind_res_Ok)
  note st = returned_step [OF Cons.prems(1,2) i1]
  note inv1 = interval_step_inv [OF Cons.prems(1) i1]
  from st have r1: "\<not> running i1" by simp
  note ih = Cons.IH [OF inv1 r1 rest]
  then obtain k where k: "ch i' = drop k (ch i1)" by blast
  from st have "ch i1 = drop 0 (ch i) \<or> ch i1 = drop 1 (ch i)" by (auto simp: drop_Suc)
  with k have "\<exists>k'. ch i' = drop k' (ch i)" by (metis drop_drop)
  with st ih show ?case by auto
qed

text \<open>
  C5, as the code has it. In every state an interval built by \<open>New\<close> can reach: the output
  channel holds at most one value; after the loop has handed a tick over, nothing is
  staged and no further hand-over happens until the timer case or a fire request stages a
  new tick, so no tick is delivered twice; once the loop has returned, no turn of the loop
  happens any more, nothing is staged and the output channel only loses values to
  consumers; when \<^verbatim>\<open>done\<close> is closed the loop can take its \<^verbatim>\<open>done\<close> case and return, and
  \<open>Reset\<close> and \<open>FireNow\<close> change nothing; a buffered value can be received whatever the
  state of \<^verbatim>\<open>done\<close> (the output channel is never closed); and \<open>Stop\<close> completes, closes
  \<^verbatim>\<open>done\<close>, keeps the output channel as it is, and changes nothing when called again.
\<close>

theorem interval_lifecycle:
  assumes "New c = Ok i0" and "interval_exec es i0 = Ok s"
  shows "length (ch s) \<le> 1
         \<and> (\<forall>x s1 es' s2. run_case x SendTick s = Ok s1 \<and> interval_exec es' s1 = Ok s2
                \<and> (\<forall>e \<in> set es'. \<not> stages (snd e))
              \<longrightarrow> \<not> ch_set s2 \<and> (\<forall>e \<in> set es'. snd e \<noteq> LoopSend))
         \<and> (\<not> running s \<longrightarrow>
              (\<forall>es' s2. interval_exec es' s = Ok s2 \<longrightarrow>
                 \<not> running s2 \<and> (\<exists>k. ch s2 = drop k (ch s)) \<and> ch_set s2 = ch_set s
                 \<and> tick s2 = tick s \<and> (\<forall>e \<in> set es'. \<not> is_loop (snd e))))
         \<and> (done_closed s \<and> running s \<longrightarrow>
              (\<exists>s1. run_case x DoneChan s = Ok s1 \<and> \<not> running s1))
         \<and> (done_closed s \<longrightarrow> Reset x s = Ok s \<and> FireNow x s = Ok s)
         \<and> (ch s \<noteq> [] \<longrightarrow> receive s = Ok (hd (ch s), s\<lparr>ch := tl (ch s)\<rparr>))
         \<and> (\<exists>s1. Stop s = Ok s1 \<and> done_closed s1 \<and> Stop s1 = Ok s1 \<and> ch s1 = ch s)"
proof -
  have inv: "interval_inv c s"
    using interval_exec_inv [OF New_inv [OF assms(1)] assms(2)] .
  have a: "length (ch s) \<le> 1" using inv by (simp add: interval_inv_def)
  have b: "\<not> ch_set s2 \<and> (\<forall>e \<in> set es'. snd e \<noteq> LoopSend)"
    if "run_case x SendTick s = Ok s1" and "interval_exec es' s1 = Ok s2"
      and "\<forall>e \<in> set es'. \<not> stages (snd e)" for x s1 es' s2
  proof -
    from that(1) have "\<not> ch_set s1" by (auto split: if_splits)
    from unstaged_exec [OF this that(2,3)] show ?thesis .
  qed
  have c: "\<not> running s2 \<and> (\<exists>k. ch s2 = drop k (ch s)) \<and> ch_set s2 = ch_set s
                 \<and> tick s2 = tick s \<and> (\<forall>e \<in> set es'. \<not> is_loop (snd e))"
    if "\<not> running s" and "interval_exec es' s = Ok s2" for es' s2
    using returned_exec [OF inv that] .
  have d: "done_closed s \<and> running s \<longrightarrow> (\<exists>s1. run_case x DoneChan s = Ok s1 \<and> \<not> running s1)"
    by simp
  have e: "done_closed s \<longrightarrow> Reset x s = Ok s \<and> FireNow x s = Ok s"
    by (simp add: Reset_def FireNow_def)
  have f: "ch s \<noteq> [] \<longrightarrow> receive s = Ok (hd (ch s), s\<lparr>ch := tl (ch s)\<rparr>)"
    by (cases "ch s") (simp_all add: receive_def)
  have g: "\<exists>s1. Stop s = Ok s1 \<and> done_closed s1 \<and> Stop s1 = Ok s1 \<and> ch s1 = ch s"
  proof -
    from inv have "Stop s = Ok (s\<lparr>done_closed := True, closeOnce := True\<rparr>)"
      by (intro Stop_Ok) (simp add: interval_inv_def)
    moreover have "Stop (s\<lparr>done_closed := True, closeOnce := True\<rparr>)
        = Ok (s\<lparr>done_closed := True, closeOnce := True\<rparr>)"
      by (simp add: Stop_def)
    ultimately show ?thesis by simp
  qed
  from a b c d e f g show ?thesis by blast
qed

text \<open>
  C5 as stated fails in "after Stop() no further trigger is ever staged or produced". The
  timer expires, then \<open>Stop\<close> is called: \<^verbatim>\<open>done\<close> is closed, nothing is staged and the output
  channel is empty. The loop's next \<^verbatim>\<open>select\<close> finds both the timer's channel and \<^verbatim>\<open>done\<close>
  ready and may take the timer case, which stages the tick 7; the \<^verbatim>\<open>select\<close> after that
  finds the send and \<^verbatim>\<open>done\<close> ready and may take the send, which puts 7 in the output
  channel.
\<close>

theorem trigger_after_Stop:
  "bind_res (New plain_config) (interval_exec [(at_time 7, TimerExpires), (at_time 8, CallStop)])
     = Ok stopped_pending
   \<and> done_closed stopped_pending \<and> ch stopped_pending = [] \<and> \<not> ch_set stopped_pending
   \<and> interval_exec [(at_time 9, LoopTimer)] stopped_pending
       = Ok (stopped_pending\<lparr>timer := NewTimer RealClock 10, tick := 7, ch_set := True\<rparr>)
   \<and> interval_exec [(at_time 9, LoopTimer), (at_time 9, LoopSend)] stopped_pending
       = Ok (stopped_pending\<lparr>timer := NewTimer RealClock 10, tick := 7, ch := [7]\<rparr>)"
  by (simp add: New_def plain_config_def duration_def Stop_def close_chan_def
      Timer_expire_def NewTimer_def rearm_def Timer_Reset_def time_Now_def at_time_def
      stopped_pending_def)


theorem interval_lifecycle_witness:
  "\<exists>i0 s s1 s2. New plain_config = Ok i0
     \<and> interval_exec [(at_time 10, TimerExpires), (at_time 10, LoopTimer)] i0 = Ok s
     \<and> run_case (at_time 10) SendTick s = Ok s1
     \<and> interval_exec [(at_time 11, CallStop), (at_time 11, LoopDone)] s1 = Ok s2
     \<and> \<not> ch_set s2 \<and> \<not> running s2 \<and> done_closed s2 \<and> length (ch s2) \<le> 1
     \<and> receive s2 = Ok (10, s2\<lparr>ch := []\<rparr>)
     \<and> Reset (at_time 12) s2 = Ok s2"
proof -
  let ?i0 = "\<lparr>cfg = plain_config, ch = [], done_closed = False, closeOnce = False,
              timer = NewTimer RealClock 10, tick = 0, ch_set = False, running = True,
              jitter_calls = 0\<rparr>"
  let ?s = "?i0\<lparr>tick := 10, ch_set := True\<rparr>"
  let ?s1 = "?s\<lparr>ch := [10], ch_set := False\<rparr>"
  let ?s2 = "?s1\<lparr>done_closed := True, closeOnce := True, running := False,
                 timer := \<lparr>timer_clock = RealClock, armed = None, Chan = None\<rparr>\<rparr>"
  let ?es = "[(at_time 10, TimerExpires), (at_time 10, LoopTimer)]"
  let ?es' = "[(at_time 11, CallStop), (at_time 11, LoopDone)]"
  have n: "New plain_config = Ok ?i0"
    by (simp add: New_def plain_config_def duration_def)
  have e: "interval_exec ?es ?i0 = Ok ?s"
    by (simp add: plain_config_def duration_def Timer_expire_def NewTimer_def rearm_def
        Timer_Reset_def time_Now_def at_time_def)
  have r: "run_case (at_time 10) SendTick ?s = Ok ?s1" by simp
  have e': "interval_exec ?es' ?s1 = Ok ?s2"
    by (simp add: Stop_def close_chan_def Timer_Stop_def NewTimer_def)
  have all: "interval_exec (?es @ [(at_time 10, LoopSend)] @ ?es') ?i0 = Ok ?s2"
    by (simp add: plain_config_def duration_def Timer_expire_def NewTimer_def rearm_def
        Timer_Reset_def time_Now_def at_time_def Stop_def close_chan_def Timer_Stop_def)
  have ns: "\<forall>e \<in> set ?es'. \<not> stages (snd e)" by (simp add: stages_def)
  from interval_lifecycle [OF n e, of "at_time 10"] r e' ns
  have a: "\<not> ch_set ?s2" by blast
  have "ch ?s2 \<noteq> []" and "done_closed ?s2" by simp_all
  with interval_lifecycle [OF n all, of "at_time 12"]
  have b: "length (ch ?s2) \<le> 1" and c: "receive ?s2 = Ok (hd (ch ?s2), ?s2\<lparr>ch := tl (ch ?s2)\<rparr>)"
    and d: "Reset (at_time 12) ?s2 = Ok ?s2"
    by blast+
  from c have c': "receive ?s2 = Ok (10, ?s2\<lparr>ch := []\<rparr>)" by simp
  have f: "\<not> running ?s2" "done_closed ?s2" by simp_all
  from n e r e' a b c' d f show ?thesis by blast
qed

end
